theory Spec2Isabelle
  imports Main "HOL-Library.Char_ord" "HOL-Library.List_Lexorder" "HOL-Library.Multiset"
begin

section \<open>Data model of \<^verbatim>\<open>ssb_mcp/main.py\<close>\<close>

text \<open>
  A dimension of a table is the Python dict \<^verbatim>\<open>{"code": ..., "values": [...]}\<close> that
  \<^verbatim>\<open>read_table\<close> builds from the table metadata. Two such dicts are equal in Python when
  both entries are equal, which is equality of the record. The value keys are strings; Python
  compares lists of strings lexicographically, element by element and character by
  character, a proper prefix being smaller: this is the order of \<^verbatim>\<open>List_Lexorder\<close> over
  \<^verbatim>\<open>Char_ord\<close>.
\<close>

record variable =
  code :: string
  "values" :: "string list"

text \<open>
  The exceptions the modelled code can raise: \<^verbatim>\<open>ValueError\<close> (\<^verbatim>\<open>max\<close> of an empty
  sequence, a payload that cannot be decoded), \<^verbatim>\<open>KeyError\<close> with the missing key,
  \<^verbatim>\<open>httpx.HTTPStatusError\<close> with the status, and \<^verbatim>\<open>IndexError\<close> (a decoded
  dataset without observations written to a data frame). The source defines no exception
  class of its own.
\<close>

datatype error = ValueError | KeyError string | HTTPStatusError nat | IndexError

section \<open>The partitioner\<close>

text \<open>
  \<^verbatim>\<open>_count_combinations\<close>: the running product of the lengths of the value lists,
  starting from 1. The lengths are natural numbers and Python integers do not overflow.
\<close>

definition count_combinations :: "variable list \<Rightarrow> nat" where
  "count_combinations variables =
     fold (\<lambda>variable count. count * length (values variable)) variables 1"

text \<open>
  \<^verbatim>\<open>max(variables, key=lambda x: x["values"])\<close>: Python keeps the first item and replaces
  it only by an item whose key is strictly greater, so the first item with the greatest key
  wins; the key is the value list itself. On an empty sequence \<^verbatim>\<open>max\<close> raises
  \<^verbatim>\<open>ValueError\<close>.
\<close>

fun max_from :: "variable \<Rightarrow> variable list \<Rightarrow> variable" where
  "max_from best [] = best"
| "max_from best (x # xs) =
     (if values best < values x then max_from x xs else max_from best xs)"

fun max_by_values :: "variable list \<Rightarrow> error + variable" where
  "max_by_values [] = Inl ValueError"
| "max_by_values (x # xs) = Inr (max_from x xs)"

text \<open>
  The two list comprehensions that build \<^verbatim>\<open>sub_query1\<close> and \<^verbatim>\<open>sub_query2\<close>: every
  dict equal to \<^verbatim>\<open>largest_variable\<close> gets the half \<open>p\<close>, every other dict keeps its values.
\<close>

definition sub_query :: "variable \<Rightarrow> string list \<Rightarrow> variable list \<Rightarrow> variable list" where
  "sub_query largest_variable p variables =
     map (\<lambda>variable. \<lparr>code = code variable,
                        values = (if variable = largest_variable then p else values variable)\<rparr>)
         variables"

text \<open>
  \<^verbatim>\<open>_recursive_split\<close>. The recursion has no bound in the source, so the function is partial:
  \<open>None\<close> means that the call never returns a value (in CPython the unbounded recursion ends
  in a \<^verbatim>\<open>RecursionError\<close> once the interpreter's stack limit is reached).
  \<open>Some (Inl e)\<close> is a raised exception, \<open>Some (Inr qs)\<close> the returned list.
\<close>

partial_function (option) recursive_split ::
  "variable list \<Rightarrow> (error + variable list list) option" where
  "recursive_split variables =
     (if count_combinations variables \<le> 300000 then Some (Inr [variables])
      else case max_by_values variables of
             Inl e \<Rightarrow> Some (Inl e)
           | Inr largest_variable \<Rightarrow>
               (let split_index = length (values largest_variable) div 2;
                    p1 = take split_index (values largest_variable);
                    p2 = drop split_index (values largest_variable);
                    sub_query1 = sub_query largest_variable p1 variables;
                    sub_query2 = sub_query largest_variable p2 variables
                in Option.bind (recursive_split sub_query1) (\<lambda>r1.
                     case r1 of
                       Inl e \<Rightarrow> Some (Inl e)
                     | Inr q1 \<Rightarrow>
                         Option.bind (recursive_split sub_query2) (\<lambda>r2.
                           case r2 of
                             Inl e \<Rightarrow> Some (Inl e)
                           | Inr q2 \<Rightarrow> Some (Inr (q1 @ q2))))))"

section \<open>Reading a table\<close>

text \<open>
  The decoded metadata document, restricted to the keys \<^verbatim>\<open>read_table\<close> reads: a field is
  \<open>None\<close> when the key is absent from the dict, and subscripting it raises \<^verbatim>\<open>KeyError\<close>.
\<close>

record descriptor =
  code_field :: "string option"
  values_field :: "string list option"

record metadata =
  variables_field :: "descriptor list option"

text \<open>
  The list comprehension of lines 110 to 113: each descriptor is read in order,
  \<^verbatim>\<open>variable["code"]\<close> before \<^verbatim>\<open>variable["values"]\<close>, and the first missing key raises.
\<close>

fun read_table_variables :: "descriptor list \<Rightarrow> error + variable list" where
  "read_table_variables [] = Inr []"
| "read_table_variables (d # ds) =
     (case code_field d of
        None \<Rightarrow> Inl (KeyError ''code'')
      | Some c \<Rightarrow>
          (case values_field d of
             None \<Rightarrow> Inl (KeyError ''values'')
           | Some vs \<Rightarrow>
               (case read_table_variables ds of
                  Inl e \<Rightarrow> Inl e
                | Inr rest \<Rightarrow> Inr (\<lparr>code = c, values = vs\<rparr> # rest))))"

text \<open>The request body built for one sub-query (lines 117 to 127).\<close>

record selection =
  filter_sel :: string
  values_sel :: "string list"

record query_item =
  code_item :: string
  selection_item :: selection

definition read_table_query :: "variable list \<Rightarrow> query_item list" where
  "read_table_query sub_query' =
     map (\<lambda>variable. \<lparr>code_item = code variable,
                        selection_item = \<lparr>filter_sel = ''item'', values_sel = values variable\<rparr>\<rparr>)
         sub_query'"

text \<open>
  \<^verbatim>\<open>pandas\<close> and \<^verbatim>\<open>pyjstat\<close> are libraries outside the repository; the operations
  the loop of \<^verbatim>\<open>read_table\<close> uses are modelled from their behaviour.
  A data frame has an ordered list of column names and an ordered list of rows; a row maps a
  column name to its cell, and a cell that pandas shows as \<^verbatim>\<open>NaN\<close> (no value for that
  column) is \<open>None\<close>. Cells are kept as their text.

  \<^item> \<^verbatim>\<open>pd.DataFrame()\<close> has no column and no row.
  \<^item> \<^verbatim>\<open>df.empty\<close> holds when the frame has no row or no column.
  \<^item> \<^verbatim>\<open>pd.concat([df, sub_df], ignore_index=True)\<close> is the outer join on the columns: the
    columns of \<^verbatim>\<open>df\<close> followed by the new columns of \<^verbatim>\<open>sub_df\<close>, the rows of
    \<^verbatim>\<open>df\<close> followed by the rows of \<^verbatim>\<open>sub_df\<close>, renumbered.
  \<^item> \<^verbatim>\<open>Dataset.write("dataframe")\<close> gives one column for each dimension of the decoded
    dataset and the column \<^verbatim>\<open>value\<close>, one row for each observation; on a dataset
    without observations it raises \<^verbatim>\<open>IndexError\<close>.
\<close>

type_synonym row = "string \<rightharpoonup> string"

record dataframe =
  columns :: "string list"
  rows :: "row list"

record dataset =
  dimensions :: "string list"
  observations :: "row list"

definition DataFrame :: dataframe where
  "DataFrame = \<lparr>columns = [], rows = []\<rparr>"

definition empty :: "dataframe \<Rightarrow> bool" where
  "empty df \<longleftrightarrow> rows df = [] \<or> columns df = []"

definition concat_frames :: "dataframe \<Rightarrow> dataframe \<Rightarrow> dataframe" where
  "concat_frames df sub_df =
     \<lparr>columns = columns df @ filter (\<lambda>c. c \<notin> set (columns df)) (columns sub_df),
      rows = rows df @ rows sub_df\<rparr>"

definition write_dataframe :: "dataset \<Rightarrow> error + dataframe" where
  "write_dataframe ds =
     (if observations ds = [] then Inl IndexError
      else Inr \<lparr>columns = dimensions ds @ [''value''], rows = observations ds\<rparr>)"

text \<open>
  The loop of lines 133 to 140. The remote service is a parameter: \<open>fetch q\<close> is the outcome of
  posting the query \<open>q\<close>, checking the status and decoding the payload, either an exception
  or the decoded dataset. An exception, of the request or of the writer, leaves the loop at
  once.
\<close>

fun read_table_loop ::
  "(query_item list \<Rightarrow> error + dataset) \<Rightarrow> query_item list list \<Rightarrow> dataframe \<Rightarrow> error + dataframe"
  where
  "read_table_loop fetch [] df = Inr df"
| "read_table_loop fetch (sub_query' # queries) df =
     (case fetch sub_query' of
        Inl e \<Rightarrow> Inl e
      | Inr ds \<Rightarrow>
          (case write_dataframe ds of
             Inl e \<Rightarrow> Inl e
           | Inr sub_df \<Rightarrow>
               read_table_loop fetch queries
                 (if empty df then sub_df else concat_frames df sub_df)))"

text \<open>
  \<^verbatim>\<open>read_table\<close>: \<open>table_metadata\<close> is the outcome of the metadata request, an exception or
  the decoded document.
\<close>

definition read_table ::
  "error + metadata \<Rightarrow> (query_item list \<Rightarrow> error + dataset) \<Rightarrow> (error + dataframe) option"
  where
  "read_table table_metadata fetch =
     (case table_metadata of
        Inl e \<Rightarrow> Some (Inl e)
      | Inr metadata \<Rightarrow>
          (case variables_field metadata of
             None \<Rightarrow> Some (Inl (KeyError ''variables''))
           | Some metadata_variables \<Rightarrow>
               (case read_table_variables metadata_variables of
                  Inl e \<Rightarrow> Some (Inl e)
                | Inr variables \<Rightarrow>
                    Option.bind (recursive_split variables) (\<lambda>r.
                      case r of
                        Inl e \<Rightarrow> Some (Inl e)
                      | Inr sub_variables \<Rightarrow>
                          Some (read_table_loop fetch (map read_table_query sub_variables)
                                  DataFrame)))))"

section \<open>Notions of the specification\<close>

text \<open>
  The cells of a query: every choice of one value for each dimension, in dimension order.
\<close>

definition cells :: "variable list \<Rightarrow> string list list" where
  "cells variables = product_lists (map values variables)"

text \<open>
  The selection as the specification words it: the dimension with the largest number of
  values, the first such dimension in dimension order. It is compared with what
  \<open>max_by_values\<close> selects.
\<close>

fun largest_count_from :: "variable \<Rightarrow> variable list \<Rightarrow> variable" where
  "largest_count_from best [] = best"
| "largest_count_from best (x # xs) =
     (if length (values best) < length (values x) then largest_count_from x xs
      else largest_count_from best xs)"

fun spec_largest_dimension :: "variable list \<Rightarrow> variable option" where
  "spec_largest_dimension [] = None"
| "spec_largest_dimension (x # xs) = Some (largest_count_from x xs)"

text \<open>
  The unsplittable case: the cardinality exceeds the cap and the selected dimension has a
  single value.
\<close>

definition degenerate :: "variable list \<Rightarrow> bool" where
  "degenerate variables \<longleftrightarrow>
     \<not> count_combinations variables \<le> 300000 \<and>
     (case max_by_values variables of
        Inl e \<Rightarrow> False
      | Inr largest_variable \<Rightarrow> length (values largest_variable) = 1)"

text \<open>
  The columns of a run of sub-datasets taken together, each column at the place of its first
  appearance: the columns so far, followed by the columns of the next sub-dataset that are
  not among them.
\<close>

fun merged_columns :: "string list \<Rightarrow> dataset list \<Rightarrow> string list" where
  "merged_columns acc [] = acc"
| "merged_columns acc (d # ds) =
     merged_columns (acc @ filter (\<lambda>c. c \<notin> set acc) (dimensions d @ [''value''])) ds"

text \<open>
  The lists the recursion of the partitioner is called on, starting from a given list: the
  list itself, and the two halves of every such list above the cap.
\<close>

inductive reaches :: "variable list \<Rightarrow> variable list \<Rightarrow> bool" where
  start: "reaches variables variables"
| first_half: "reaches variables w \<Longrightarrow> \<not> count_combinations w \<le> 300000 \<Longrightarrow>
     max_by_values w = Inr lv \<Longrightarrow>
     reaches variables (sub_query lv (take (length (values lv) div 2) (values lv)) w)"
| second_half: "reaches variables w \<Longrightarrow> \<not> count_combinations w \<le> 300000 \<Longrightarrow>
     max_by_values w = Inr lv \<Longrightarrow>
     reaches variables (sub_query lv (drop (length (values lv) div 2) (values lv)) w)"


section \<open>Example tables\<close>

text \<open>
  A table of seven dimensions: five with ten value keys each, the sex with two and the
  year with two; 400000 cells.
\<close>

definition example_ten :: "string list" where
  "example_ten = [''00'', ''01'', ''02'', ''03'', ''04'', ''05'', ''06'', ''07'', ''08'', ''09'']"

definition example_table :: "variable list" where
  "example_table =
     [\<lparr>code = ''Region'', values = example_ten\<rparr>,
      \<lparr>code = ''Alder'', values = example_ten\<rparr>,
      \<lparr>code = ''Yrke'', values = example_ten\<rparr>,
      \<lparr>code = ''Naring'', values = example_ten\<rparr>,
      \<lparr>code = ''Sektor'', values = example_ten\<rparr>,
      \<lparr>code = ''Kjonn'', values = [''1'', ''2'']\<rparr>,
      \<lparr>code = ''Tid'', values = [''2023'', ''2024'']\<rparr>]"

text \<open>The same table restricted to one year; 200000 cells.\<close>

definition example_half :: "string \<Rightarrow> variable list" where
  "example_half year =
     [\<lparr>code = ''Region'', values = example_ten\<rparr>,
      \<lparr>code = ''Alder'', values = example_ten\<rparr>,
      \<lparr>code = ''Yrke'', values = example_ten\<rparr>,
      \<lparr>code = ''Naring'', values = example_ten\<rparr>,
      \<lparr>code = ''Sektor'', values = example_ten\<rparr>,
      \<lparr>code = ''Kjonn'', values = [''1'', ''2'']\<rparr>,
      \<lparr>code = ''Tid'', values = [year]\<rparr>]"

text \<open>
  The example table with one more dimension that has a single value, the measure
  \<^verbatim>\<open>ContentsCode\<close>; still 400000 cells.
\<close>

definition contents_table :: "variable list" where
  "contents_table = example_table @ [\<lparr>code = ''ContentsCode'', values = [''Personer'']\<rparr>]"

text \<open>A table of 400000 cells for a single year.\<close>

definition single_year_table :: "variable list" where
  "single_year_table =
     [\<lparr>code = ''Region'', values = example_ten\<rparr>,
      \<lparr>code = ''Alder'', values = example_ten\<rparr>,
      \<lparr>code = ''Yrke'', values = example_ten\<rparr>,
      \<lparr>code = ''Naring'', values = example_ten\<rparr>,
      \<lparr>code = ''Sektor'', values = example_ten\<rparr>,
      \<lparr>code = ''Kjonn'', values = [''1'', ''2'']\<rparr>,
      \<lparr>code = ''Landbakgrunn'', values = [''0'', ''1'']\<rparr>,
      \<lparr>code = ''Tid'', values = [''2024'']\<rparr>]"

text \<open>A table under the cap, and a table one of whose dimensions has no value.\<close>

definition small_table :: "variable list" where
  "small_table =
     [\<lparr>code = ''Kjonn'', values = [''1'', ''2'']\<rparr>,
      \<lparr>code = ''Tid'', values = [''2023'', ''2024'']\<rparr>]"

definition hollow_table :: "variable list" where
  "hollow_table =
     [\<lparr>code = ''Region'', values = example_ten\<rparr>,
      \<lparr>code = ''Tid'', values = []\<rparr>]"

text \<open>
  Requests for single years, the datasets a service answers them with (the second one has
  no observation, the fourth one has another dimension), and metadata documents with an
  empty value list and with a missing code.
\<close>

definition year_query :: "string \<Rightarrow> query_item list" where
  "year_query year = read_table_query [\<lparr>code = ''Tid'', values = [year]\<rparr>]"

definition year_row :: "string \<Rightarrow> string \<Rightarrow> row" where
  "year_row year v = [''Tid'' \<mapsto> year, ''value'' \<mapsto> v]"

definition year_dataset :: "row list \<Rightarrow> dataset" where
  "year_dataset obs = \<lparr>dimensions = [''Tid''], observations = obs\<rparr>"

definition region_row :: row where
  "region_row = [''Region'' \<mapsto> ''0301'', ''value'' \<mapsto> ''7'']"

definition region_dataset :: dataset where
  "region_dataset = \<lparr>dimensions = [''Region''], observations = [region_row]\<rparr>"

definition example_fetch :: "query_item list \<Rightarrow> error + dataset" where
  "example_fetch q =
     (if q = year_query ''2022'' then Inr (year_dataset [year_row ''2022'' ''10'', year_row ''2022'' ''11''])
      else if q = year_query ''2023'' then Inr (year_dataset [])
      else if q = year_query ''2024'' then Inr (year_dataset [year_row ''2024'' ''12''])
      else if q = year_query ''2025'' then Inr region_dataset
      else if q = year_query ''2026'' then Inr (year_dataset [year_row ''2026'' ''13''])
      else Inl (HTTPStatusError 400))"

definition hollow_descriptors :: "descriptor list" where
  "hollow_descriptors =
     [\<lparr>code_field = Some ''Region'', values_field = Some example_ten\<rparr>,
      \<lparr>code_field = Some ''Tid'', values_field = Some []\<rparr>]"

definition uncoded_descriptors :: "descriptor list" where
  "uncoded_descriptors =
     [\<lparr>code_field = Some ''Region'', values_field = Some example_ten\<rparr>,
      \<lparr>code_field = None, values_field = Some [''2024'']\<rparr>]"

section \<open>Facts about the partitioner\<close>

subsection \<open>Cardinality and selection\<close>

lemma fold_mult_prod:
  "fold (\<lambda>variable count. count * f variable) vs a = a * prod_list (map f vs)"
  by (induction vs arbitrary: a) (simp_all add: mult.assoc)

lemma count_combinations_prod:
  "count_combinations vs = prod_list (map (\<lambda>v. length (values v)) vs)"
  by (simp add: count_combinations_def fold_mult_prod)

lemma max_from_mem: "max_from best xs \<in> set (best # xs)"
  by (induction xs arbitrary: best) auto

lemma max_from_ge: "values best \<le> values (max_from best xs)"
proof (induction xs arbitrary: best)
  case Nil show ?case by simp
next
  case (Cons x xs)
  show ?case using Cons.IH[of x] Cons.IH[of best] by (auto intro: order_trans less_imp_le)
qed

lemma max_from_upper: "v \<in> set xs \<Longrightarrow> values v \<le> values (max_from best xs)"
proof (induction xs arbitrary: best)
  case Nil then show ?case by simp
next
  case (Cons x xs)
  show ?case
  proof (cases "v = x")
    case True
    have "values x \<le> values (max_from x xs)" by (rule max_from_ge)
    moreover have "\<not> values best < values x \<Longrightarrow> values x \<le> values (max_from best xs)"
    proof -
      assume "\<not> values best < values x"
      then have "values x \<le> values best" by (simp add: not_less)
      then show ?thesis using max_from_ge[of best xs] by (rule order_trans)
    qed
    ultimately show ?thesis using True by simp
  next
    case False
    then show ?thesis using Cons by auto
  qed
qed

lemma max_by_values_mem: "max_by_values vs = Inr lv \<Longrightarrow> lv \<in> set vs"
  using max_from_mem by (cases vs) auto

lemma max_by_values_upper:
  "max_by_values vs = Inr lv \<Longrightarrow> v \<in> set vs \<Longrightarrow> values v \<le> values lv"
  using max_from_upper max_from_ge by (cases vs) auto

lemma max_from_first:
  "\<exists>i < length (best # xs). (best # xs) ! i = max_from best xs \<and>
      (\<forall>j < i. values ((best # xs) ! j) < values (max_from best xs))"
proof (induction xs arbitrary: best)
  case Nil show ?case by simp
next
  case (Cons x xs)
  show ?case
  proof (cases "values best < values x")
    case True
    from Cons.IH[of x] obtain i where i: "i < length (x # xs)" "(x # xs) ! i = max_from x xs"
      "\<forall>j < i. values ((x # xs) ! j) < values (max_from x xs)" by blast
    have b: "values best < values (max_from x xs)"
      using True max_from_ge[of x xs] by (rule less_le_trans)
    have "\<forall>j < Suc i. values ((best # x # xs) ! j) < values (max_from x xs)"
      using i(3) b by (auto simp: less_Suc_eq_0_disj)
    then show ?thesis using True i(1,2) by (intro exI[of _ "Suc i"]) simp
  next
    case False
    from Cons.IH[of best] obtain i where i: "i < length (best # xs)" "(best # xs) ! i = max_from best xs"
      "\<forall>j < i. values ((best # xs) ! j) < values (max_from best xs)" by blast
    show ?thesis
    proof (cases i)
      case 0
      then show ?thesis using False i by (intro exI[of _ 0]) simp
    next
      case (Suc k)
      have "\<forall>j < Suc (Suc k). values ((best # x # xs) ! j) < values (max_from best xs)"
      proof (intro allI impI)
        fix j assume "j < Suc (Suc k)"
        then consider "j = 0" | "j = 1" | m where "j = Suc (Suc m)" "m < k"
          by (cases j; cases "j - 1") auto
        then show "values ((best # x # xs) ! j) < values (max_from best xs)"
        proof cases
          case 1 then show ?thesis using i(3) Suc by auto
        next
          case 2
          have "values best < values (max_from best xs)" using i(3) Suc by auto
          moreover have "values x \<le> values best" using False by (simp add: not_less)
          ultimately have "values x < values (max_from best xs)" by (rule le_less_trans[rotated])
          then show ?thesis using 2 by simp
        next
          case 3
          have "Suc m < i" using 3 Suc by simp
          then have "values ((best # xs) ! Suc m) < values (max_from best xs)" using i(3) by blast
          then show ?thesis using 3 by simp
        qed
      qed
      then show ?thesis using False i(1,2) Suc by (intro exI[of _ "Suc (Suc k)"]) simp
    qed
  qed
qed


text \<open>
  What the source selects: the first dimension whose value list is greatest in the
  lexicographic order; the number of values plays no part.
\<close>

lemma max_by_values_first_greatest:
  assumes "max_by_values vs = Inr lv"
  shows "\<exists>i < length vs. vs ! i = lv \<and>
           (\<forall>j < i. values (vs ! j) < values lv) \<and>
           (\<forall>j < length vs. values (vs ! j) \<le> values lv)"
proof -
  from assms obtain x xs where vs: "vs = x # xs" "lv = max_from x xs"
    by (cases vs) auto
  from max_from_first[of x xs] obtain i where
    "i < length vs" "vs ! i = lv" "\<forall>j < i. values (vs ! j) < values lv"
    using vs by blast
  moreover have "\<forall>j < length vs. values (vs ! j) \<le> values lv"
    using max_by_values_upper[OF assms] by simp
  ultimately show ?thesis by blast
qed

subsection \<open>The two halves of a split\<close>

lemma sub_query_codes: "map code (sub_query lv p vs) = map code vs"
  by (simp add: sub_query_def comp_def)

lemma sub_query_absent: "lv \<notin> set vs \<Longrightarrow> sub_query lv p vs = vs"
  by (induction vs) (auto simp: sub_query_def)

lemma sub_query_append: "sub_query lv p (xs @ ys) = sub_query lv p xs @ sub_query lv p ys"
  by (simp add: sub_query_def)

lemma sub_query_same: "sub_query lv (values lv) vs = vs"
  by (induction vs) (auto simp: sub_query_def)

lemma sub_query_nth:
  "i < length vs \<Longrightarrow>
     sub_query lv p vs ! i =
       \<lparr>code = code (vs ! i), values = (if vs ! i = lv then p else values (vs ! i))\<rparr>"
  by (simp add: sub_query_def)

lemma distinct_codes_index:
  assumes "distinct (map code vs)" "lv \<in> set vs"
  shows "\<exists>i < length vs. vs ! i = lv \<and> (\<forall>j < length vs. j \<noteq> i \<longrightarrow> vs ! j \<noteq> lv)"
proof -
  from assms(2) obtain i where i: "i < length vs" "vs ! i = lv"
    by (auto simp: in_set_conv_nth)
  have "vs ! j \<noteq> lv" if j: "j < length vs" "j \<noteq> i" for j
  proof
    assume "vs ! j = lv"
    then have "map code vs ! j = map code vs ! i" using i j by simp
    moreover have "j < length (map code vs)" "i < length (map code vs)" using i j by simp_all
    ultimately have "j = i" using assms(1) nth_eq_iff_index_eq by blast
    then show False using j by simp
  qed
  then show ?thesis using i by blast
qed


lemma distinct_codes_split:
  assumes "distinct (map code vs)" "lv \<in> set vs"
  obtains xs ys where "vs = xs @ lv # ys" "lv \<notin> set xs" "lv \<notin> set ys"
proof -
  from assms(2) obtain xs ys where s: "vs = xs @ lv # ys" by (auto dest: split_list)
  have "distinct vs" using assms(1) by (simp add: distinct_map)
  then have "lv \<notin> set xs" "lv \<notin> set ys" using s by auto
  then show ?thesis using s that by blast
qed

lemma sub_query_unique:
  assumes "lv \<notin> set xs" "lv \<notin> set ys"
  shows "sub_query lv p (xs @ lv # ys) = xs @ \<lparr>code = code lv, values = p\<rparr> # ys"
proof -
  have "sub_query lv p (lv # ys) = \<lparr>code = code lv, values = p\<rparr> # ys"
    using sub_query_absent[OF assms(2), of p] by (simp add: sub_query_def)
  then show ?thesis using sub_query_absent[OF assms(1), of p] by (simp add: sub_query_append)
qed

lemma count_combinations_unique:
  "count_combinations (xs @ v # ys) =
     length (values v) * (count_combinations xs * count_combinations ys)"
  by (simp add: count_combinations_prod)

lemma count_combinations_empty_values:
  "v \<in> set vs \<Longrightarrow> values v = [] \<Longrightarrow> count_combinations vs = 0"
  by (auto simp: count_combinations_prod prod_list_zero_iff)

lemma sub_query_nil_count:
  assumes "lv \<in> set vs"
  shows "count_combinations (sub_query lv [] vs) = 0"
proof -
  have "\<lparr>code = code lv, values = []\<rparr> \<in> set (sub_query lv [] vs)"
    using assms by (force simp: sub_query_def)
  then show ?thesis by (rule count_combinations_empty_values) simp
qed

text \<open>
  Induction over the calls of a run of the partitioner that returns a list: a property that
  holds at every leaf and is kept by every split holds of the result.
\<close>

lemma recursive_split_induct [consumes 1, case_names leaf split]:
  assumes ret: "recursive_split vs = Some (Inr qs)"
    and leaf: "\<And>vs. count_combinations vs \<le> 300000 \<Longrightarrow> P vs [vs]"
    and split: "\<And>vs lv q1 q2.
        \<not> count_combinations vs \<le> 300000 \<Longrightarrow> max_by_values vs = Inr lv \<Longrightarrow>
        P (sub_query lv (take (length (values lv) div 2) (values lv)) vs) q1 \<Longrightarrow>
        P (sub_query lv (drop (length (values lv) div 2) (values lv)) vs) q2 \<Longrightarrow>
        P vs (q1 @ q2)"
  shows "P vs qs"
proof -
  have "\<forall>qs. r = Inr qs \<longrightarrow> P vs qs" if "recursive_split vs = Some r" for r
  proof (rule recursive_split.raw_induct[where
        P = "\<lambda>vs r. \<forall>qs. r = Inr qs \<longrightarrow> P vs qs", OF _ that], goal_cases)
    case (1 f vs r)
    show ?case
    proof (cases "count_combinations vs \<le> 300000")
      case True
      then show ?thesis using 1(2) leaf by auto
    next
      case False
      show ?thesis
      proof (cases "max_by_values vs")
        case (Inl e)
        then show ?thesis using 1(2) False by auto
      next
        case (Inr lv)
        let ?s1 = "sub_query lv (take (length (values lv) div 2) (values lv)) vs"
        let ?s2 = "sub_query lv (drop (length (values lv) div 2) (values lv)) vs"
        show ?thesis
        proof (intro allI impI)
          fix qs assume r: "r = Inr qs"
          from 1(2) False Inr r obtain q1 q2 where
            "f ?s1 = Some (Inr q1)" "f ?s2 = Some (Inr q2)" "qs = q1 @ q2"
            by (auto simp: Let_def split: Option.bind_splits sum.splits)
          then show "P vs qs" using 1(1) split[OF False Inr] by blast
        qed
      qed
    qed
  qed
  then show ?thesis using ret by blast
qed

subsection \<open>Results of the recursion\<close>

lemma degenerate_diverges:
  assumes "degenerate vs"
  shows "recursive_split vs = None"
proof (rule ccontr)
  assume "recursive_split vs \<noteq> None"
  then obtain r where r: "recursive_split vs = Some r" by auto
  have "\<not> degenerate vs \<and> (count_combinations vs \<le> 300000 \<longrightarrow> r = Inr [vs])"
  proof (rule recursive_split.raw_induct[where
        P = "\<lambda>vs r. \<not> degenerate vs \<and> (count_combinations vs \<le> 300000 \<longrightarrow> r = Inr [vs])", OF _ r],
        goal_cases)
    case (1 f vs r)
    have "\<not> degenerate vs"
    proof
      assume d: "degenerate vs"
      then obtain lv where lv: "max_by_values vs = Inr lv" "length (values lv) = 1"
        and big: "\<not> count_combinations vs \<le> 300000"
        by (auto simp: degenerate_def split: sum.splits)
      have mem: "lv \<in> set vs" using lv(1) by (rule max_by_values_mem)
      have s2: "sub_query lv (drop (length (values lv) div 2) (values lv)) vs = vs"
        using lv(2) by (simp add: sub_query_same)
      have s1: "count_combinations (sub_query lv (take (length (values lv) div 2) (values lv)) vs) = 0"
        using lv(2) mem by (simp add: sub_query_nil_count)
      from 1(2) big lv(1) obtain r1 where
        r1: "f (sub_query lv (take (length (values lv) div 2) (values lv)) vs) = Some r1"
        by (auto simp: Let_def split: Option.bind_splits)
      then have "r1 = Inr [sub_query lv (take (length (values lv) div 2) (values lv)) vs]"
        using 1(1) s1 by auto
      with 1(2) big lv(1) r1 s2 obtain r2 where "f vs = Some r2"
        by (auto simp: Let_def split: Option.bind_splits)
      then show False using 1(1) d by blast
    qed
    moreover have "count_combinations vs \<le> 300000 \<longrightarrow> r = Inr [vs]"
      using 1(2) by auto
    ultimately show ?case by blast
  qed
  then show False using assms by blast
qed

lemma recursive_split_leaf:
  "count_combinations vs \<le> 300000 \<Longrightarrow> recursive_split vs = Some (Inr [vs])"
  by (subst recursive_split.simps) simp

lemma recursive_split_step:
  assumes "\<not> count_combinations vs \<le> 300000" "max_by_values vs = Inr lv"
    and "recursive_split (sub_query lv (take (length (values lv) div 2) (values lv)) vs) = Some (Inr q1)"
    and "recursive_split (sub_query lv (drop (length (values lv) div 2) (values lv)) vs) = Some (Inr q2)"
  shows "recursive_split vs = Some (Inr (q1 @ q2))"
  by (subst recursive_split.simps) (simp add: assms Let_def)

lemma codes_kept:
  "recursive_split vs = Some (Inr qs) \<Longrightarrow> \<forall>q \<in> set qs. map code q = map code vs"
  by (induction rule: recursive_split_induct) (auto simp: sub_query_codes)

lemma split_counts:
  assumes "distinct (map code vs)" "max_by_values vs = Inr lv"
  shows "count_combinations (sub_query lv (take n (values lv)) vs) +
         count_combinations (sub_query lv (drop n (values lv)) vs) = count_combinations vs"
proof -
  have "lv \<in> set vs" using assms(2) by (rule max_by_values_mem)
  with assms(1) obtain xs ys where s: "vs = xs @ lv # ys" "lv \<notin> set xs" "lv \<notin> set ys"
    by (rule distinct_codes_split)
  have "length (take n (values lv)) + length (drop n (values lv)) = length (values lv)"
    by simp
  then show ?thesis
    unfolding s(1) sub_query_unique[OF s(2,3)] count_combinations_unique
    by (simp add: distrib_right[symmetric] del: length_take length_drop)
qed

lemma mset_cons_layer:
  "mset L = mset L1 + mset L2 \<Longrightarrow>
     mset (concat (map (\<lambda>e. map (Cons e) L) x)) =
     mset (concat (map (\<lambda>e. map (Cons e) L1) x)) + mset (concat (map (\<lambda>e. map (Cons e) L2) x))"
proof (induction x)
  case Nil
  show ?case by simp
next
  case (Cons a x)
  have "image_mset ((#) a) (mset L) = image_mset ((#) a) (mset L1) + image_mset ((#) a) (mset L2)"
    using Cons.prems by simp
  then show ?case using Cons.IH[OF Cons.prems] by simp
qed

lemma product_lists_halves:
  "mset (product_lists (xss @ (a @ b) # yss)) =
     mset (product_lists (xss @ a # yss)) + mset (product_lists (xss @ b # yss))"
proof (induction xss)
  case Nil
  show ?case by simp
next
  case (Cons x xss)
  show ?case using mset_cons_layer[OF Cons.IH, of x] by simp
qed

lemma split_cells:
  assumes "distinct (map code vs)" "max_by_values vs = Inr lv"
  shows "mset (cells (sub_query lv (take n (values lv)) vs)) +
         mset (cells (sub_query lv (drop n (values lv)) vs)) = mset (cells vs)"
proof -
  have "lv \<in> set vs" using assms(2) by (rule max_by_values_mem)
  with assms(1) obtain xs ys where s: "vs = xs @ lv # ys" "lv \<notin> set xs" "lv \<notin> set ys"
    by (rule distinct_codes_split)
  have "mset (product_lists (map values xs @ (take n (values lv) @ drop n (values lv)) # map values ys)) =
        mset (product_lists (map values xs @ take n (values lv) # map values ys)) +
        mset (product_lists (map values xs @ drop n (values lv) # map values ys))"
    by (rule product_lists_halves)
  then show ?thesis
    unfolding s(1) sub_query_unique[OF s(2,3)] cells_def by simp
qed

lemma in_cells_iff:
  "c \<in> set (cells vs) \<longleftrightarrow> list_all2 (\<lambda>x v. x \<in> set (values v)) c vs"
  by (simp add: cells_def product_lists_set list_all2_map2)


subsection \<open>The example tables\<close>

lemma ex_len: "length example_ten = 10"
  by (simp add: example_ten_def)

lemma example_codes: "distinct (map code example_table)"
  by (simp add: example_table_def)

lemma ex_count: "count_combinations example_table = 400000"
  by (simp add: example_table_def ex_len count_combinations_def)

lemma ex_max: "max_by_values example_table = Inr \<lparr>code = ''Tid'', values = [''2023'', ''2024'']\<rparr>"
  by (simp add: example_table_def example_ten_def)

lemma ex_half_count: "count_combinations (example_half year) = 200000"
  by (simp add: example_half_def ex_len count_combinations_def)

lemma ex_sub1:
  "sub_query \<lparr>code = ''Tid'', values = [''2023'', ''2024'']\<rparr> [y] example_table = example_half y"
  by (simp add: sub_query_def example_table_def example_half_def)

lemma ex_split:
  "recursive_split example_table = Some (Inr [example_half ''2023'', example_half ''2024''])"
proof -
  have "recursive_split example_table = Some (Inr ([example_half ''2023''] @ [example_half ''2024'']))"
  proof (rule recursive_split_step[OF _ ex_max])
    show "\<not> count_combinations example_table \<le> 300000" by (simp add: ex_count)
    show "recursive_split (sub_query \<lparr>code = ''Tid'', values = [''2023'', ''2024'']\<rparr>
           (take (length (values \<lparr>code = ''Tid'', values = [''2023'', ''2024'']\<rparr>) div 2)
                 (values \<lparr>code = ''Tid'', values = [''2023'', ''2024'']\<rparr>)) example_table)
          = Some (Inr [example_half ''2023''])"
      by (simp add: ex_sub1 recursive_split_leaf ex_half_count)
    show "recursive_split (sub_query \<lparr>code = ''Tid'', values = [''2023'', ''2024'']\<rparr>
           (drop (length (values \<lparr>code = ''Tid'', values = [''2023'', ''2024'']\<rparr>) div 2)
                 (values \<lparr>code = ''Tid'', values = [''2023'', ''2024'']\<rparr>)) example_table)
          = Some (Inr [example_half ''2024''])"
      by (simp add: ex_sub1 recursive_split_leaf ex_half_count)
  qed
  then show ?thesis by simp
qed

lemma contents_count: "count_combinations contents_table = 400000"
  by (simp add: contents_table_def example_table_def ex_len count_combinations_def)

lemma contents_max:
  "max_by_values contents_table = Inr \<lparr>code = ''ContentsCode'', values = [''Personer'']\<rparr>"
  by (simp add: contents_table_def example_table_def example_ten_def)

lemma contents_degenerate: "degenerate contents_table"
  by (simp add: degenerate_def contents_count contents_max)

lemma single_year_count: "count_combinations single_year_table = 400000"
  by (simp add: single_year_table_def ex_len count_combinations_def)

lemma single_year_max:
  "max_by_values single_year_table = Inr \<lparr>code = ''Tid'', values = [''2024'']\<rparr>"
  by (simp add: single_year_table_def example_ten_def)

lemma spec_largest_example:
  "spec_largest_dimension example_table = Some \<lparr>code = ''Region'', values = example_ten\<rparr>"
  by (simp add: example_table_def ex_len)

subsection \<open>When the partitioner returns\<close>

lemma reaches_trans: "reaches w u \<Longrightarrow> reaches v w \<Longrightarrow> reaches v u"
  by (induction rule: reaches.induct) (auto intro: reaches.intros)

lemma sub_query_count_less:
  assumes "lv \<in> set vs" "length p < length (values lv)" "0 < count_combinations vs"
  shows "count_combinations (sub_query lv p vs) < count_combinations vs"
  using assms
proof (induction vs)
  case Nil
  then show ?case by simp
next
  case (Cons a vs)
  have pos: "0 < length (values a)" "0 < count_combinations vs"
    using Cons.prems(3) by (simp_all add: count_combinations_prod)
  have le: "count_combinations (sub_query lv p vs) \<le> count_combinations vs"
  proof (cases "lv \<in> set vs")
    case True
    then show ?thesis using Cons.IH Cons.prems(2) pos by simp
  next
    case False
    then show ?thesis by (simp add: sub_query_absent)
  qed
  have c: "count_combinations (sub_query lv p (a # vs)) =
        length (if a = lv then p else values a) * count_combinations (sub_query lv p vs)"
    by (simp add: count_combinations_prod sub_query_def)
  have c': "count_combinations (a # vs) = length (values a) * count_combinations vs"
    by (simp add: count_combinations_prod)
  show ?case
  proof (cases "a = lv")
    case True
    have "length p * count_combinations (sub_query lv p vs) \<le> length p * count_combinations vs"
      using le by simp
    also have "\<dots> < length (values a) * count_combinations vs"
      using Cons.prems(2) True pos by simp
    finally show ?thesis using c c' True by simp
  next
    case False
    then have "lv \<in> set vs" using Cons.prems(1) by auto
    then have "count_combinations (sub_query lv p vs) < count_combinations vs"
      using Cons.IH Cons.prems(2) pos by simp
    then show ?thesis using c c' False pos by simp
  qed
qed

lemma recursive_split_returns:
  assumes "\<And>w. reaches variables w \<Longrightarrow> \<not> degenerate w"
  shows "\<exists>qs. recursive_split variables = Some (Inr qs)"
  using assms
proof (induction "count_combinations variables" arbitrary: variables rule: less_induct)
  case less
  show ?case
  proof (cases "count_combinations variables \<le> 300000")
    case True
    then show ?thesis by (simp add: recursive_split_leaf)
  next
    case False
    then have "variables \<noteq> []" by (auto simp: count_combinations_def)
    then obtain lv where lv: "max_by_values variables = Inr lv" by (cases variables) auto
    then have mem: "lv \<in> set variables" by (rule max_by_values_mem)
    have "\<not> degenerate variables" using less.prems reaches.start by blast
    then have n1: "length (values lv) \<noteq> 1" using False lv by (simp add: degenerate_def)
    have n0: "values lv \<noteq> []"
      using False mem count_combinations_empty_values by fastforce
    let ?n = "length (values lv)"
    let ?s1 = "sub_query lv (take (?n div 2) (values lv)) variables"
    let ?s2 = "sub_query lv (drop (?n div 2) (values lv)) variables"
    have "?n \<noteq> 0" using n0 by simp
    then have n2: "2 \<le> ?n" using n1 by arith
    have pos: "0 < count_combinations variables" using False by simp
    have "count_combinations ?s1 < count_combinations variables"
      using mem pos n2 by (intro sub_query_count_less) auto
    moreover have "\<And>w. reaches ?s1 w \<Longrightarrow> \<not> degenerate w"
      using less.prems reaches_trans[OF _ reaches.first_half[OF reaches.start False lv]] by blast
    ultimately obtain q1 where q1: "recursive_split ?s1 = Some (Inr q1)"
      using less.hyps by blast
    have "count_combinations ?s2 < count_combinations variables"
      using mem pos n2 by (intro sub_query_count_less) auto
    moreover have "\<And>w. reaches ?s2 w \<Longrightarrow> \<not> degenerate w"
      using less.prems reaches_trans[OF _ reaches.second_half[OF reaches.start False lv]] by blast
    ultimately obtain q2 where q2: "recursive_split ?s2 = Some (Inr q2)"
      using less.hyps by blast
    show ?thesis using recursive_split_step[OF False lv q1 q2] by blast
  qed
qed

lemma recursive_split_never_raises:
  assumes "recursive_split variables = Some r"
  shows "\<exists>qs. r = Inr qs"
proof (rule recursive_split.raw_induct[where P = "\<lambda>vs r. \<exists>qs. r = Inr qs", OF _ assms], goal_cases)
  case (1 f vs r)
  show ?case
  proof (cases "count_combinations vs \<le> 300000")
    case True
    then show ?thesis using 1(2) by auto
  next
    case False
    then have "vs \<noteq> []" by (auto simp: count_combinations_def)
    then obtain lv where lv: "max_by_values vs = Inr lv" by (cases vs) auto
    from 1(2) False lv obtain r1 r2 where
      r1: "f (sub_query lv (take (length (values lv) div 2) (values lv)) vs) = Some r1"
      and r: "(case r1 of Inl e \<Rightarrow> Some (Inl e)
                | Inr q1 \<Rightarrow> Option.bind (f (sub_query lv (drop (length (values lv) div 2) (values lv)) vs))
                    (\<lambda>r2. case r2 of Inl e \<Rightarrow> Some (Inl e) | Inr q2 \<Rightarrow> Some (Inr (q1 @ q2)))) = Some r"
      by (auto simp: Let_def split: Option.bind_splits)
    from 1(1)[OF r1] obtain q1 where q1: "r1 = Inr q1" by blast
    with r obtain r2 where
      r2: "f (sub_query lv (drop (length (values lv) div 2) (values lv)) vs) = Some r2"
      and r': "(case r2 of Inl e \<Rightarrow> Some (Inl e) | Inr q2 \<Rightarrow> Some (Inr (q1 @ q2))) = Some r"
      by (auto split: Option.bind_splits)
    from 1(1)[OF r2] obtain q2 where "r2 = Inr q2" by blast
    then show ?thesis using r' by auto
  qed
qed


lemma reaches_none:
  "reaches variables w \<Longrightarrow> recursive_split w = None \<Longrightarrow> recursive_split variables = None"
proof (induction rule: reaches.induct)
  case (start variables)
  then show ?case by simp
next
  case (first_half variables w lv)
  have "recursive_split w = None"
    using first_half.hyps(2,3) first_half.prems
    by (subst recursive_split.simps) (simp add: Let_def)
  then show ?case by (rule first_half.IH)
next
  case (second_half variables w lv)
  have "recursive_split w = None"
    using second_half.hyps(2,3) second_half.prems
    by (subst recursive_split.simps)
       (auto simp: Let_def split: Option.bind_splits sum.splits dest: recursive_split_never_raises)
  then show ?case by (rule second_half.IH)
qed

lemma recursive_split_returns_iff:
  "(\<exists>qs. recursive_split variables = Some (Inr qs)) \<longleftrightarrow>
   (\<forall>w. reaches variables w \<longrightarrow> \<not> degenerate w)"
proof
  assume ret: "\<exists>qs. recursive_split variables = Some (Inr qs)"
  show "\<forall>w. reaches variables w \<longrightarrow> \<not> degenerate w"
  proof (intro allI impI notI)
    fix w assume "reaches variables w" "degenerate w"
    then have "recursive_split variables = None"
      using reaches_none degenerate_diverges by blast
    then show False using ret by simp
  qed
next
  assume "\<forall>w. reaches variables w \<longrightarrow> \<not> degenerate w"
  then show "\<exists>qs. recursive_split variables = Some (Inr qs)"
    using recursive_split_returns by blast
qed

subsection \<open>Runs that return\<close>

text \<open>
  On a dimension list with pairwise distinct codes, whenever the partitioner returns, the
  cardinalities of the returned queries sum to the cardinality of the input.
\<close>

lemma cardinality_conserved:
  "distinct (map code variables) \<Longrightarrow> recursive_split variables = Some (Inr qs) \<Longrightarrow>
     sum_list (map count_combinations qs) = count_combinations variables"
proof -
  assume d: "distinct (map code variables)" and r: "recursive_split variables = Some (Inr qs)"
  from r d show ?thesis
  proof (induction rule: recursive_split_induct)
    case (leaf vs)
    then show ?case by simp
  next
    case (split vs lv q1 q2)
    then show ?case using split_counts[OF split.prems split.hyps(2)]
      by (simp add: sub_query_codes)
  qed
qed

lemma cardinality_conserved_example:
  "distinct (map code example_table) \<and>
   recursive_split example_table = Some (Inr [example_half ''2023'', example_half ''2024'']) \<and>
   count_combinations (example_half ''2023'') + count_combinations (example_half ''2024'') =
     count_combinations example_table"
  using cardinality_conserved [OF example_codes ex_split] example_codes ex_split by simp

text \<open>
  On a dimension list with pairwise distinct codes, whenever the partitioner returns, the
  returned queries have the dimension codes of the input, in the same order, and their
  cells taken together are exactly the cells of the input, each as often as in the input;
  when the values of every dimension are distinct, every cell of the input lies in exactly
  one returned query, once. In a split exactly one position of the list is changed: there
  the two halves hold the first \<open>n\<close> and the remaining values of the selected dimension,
  which concatenate to its value list and are disjoint when the values are distinct; every
  other position is copied unchanged into both halves.
\<close>

lemma partition_covers_cells:
  assumes "distinct (map code variables)"
  shows "(recursive_split variables = Some (Inr qs) \<longrightarrow>
            mset (concat (map cells qs)) = mset (cells variables) \<and>
            (\<forall>q \<in> set qs. map code q = map code variables) \<and>
            ((\<forall>v \<in> set variables. distinct (values v)) \<longrightarrow>
               distinct (concat (map cells qs)) \<and>
               set (concat (map cells qs)) = set (cells variables))) \<and>
         (max_by_values variables = Inr lv \<longrightarrow>
            take n (values lv) @ drop n (values lv) = values lv \<and>
            (distinct (values lv) \<longrightarrow> set (take n (values lv)) \<inter> set (drop n (values lv)) = {}) \<and>
            (\<exists>i < length variables. variables ! i = lv \<and>
               (\<forall>j < length variables.
                  if j = i
                  then sub_query lv (take n (values lv)) variables ! j = \<lparr>code = code lv, values = take n (values lv)\<rparr> \<and>
                       sub_query lv (drop n (values lv)) variables ! j = \<lparr>code = code lv, values = drop n (values lv)\<rparr>
                  else sub_query lv (take n (values lv)) variables ! j = variables ! j \<and>
                       sub_query lv (drop n (values lv)) variables ! j = variables ! j)))"
proof (intro conjI impI)
  assume ret: "recursive_split variables = Some (Inr qs)"
  from ret assms show m: "mset (concat (map cells qs)) = mset (cells variables)"
  proof (induction rule: recursive_split_induct)
    case (leaf vs)
    then show ?case by simp
  next
    case (split vs lv q1 q2)
    then show ?case using split_cells[OF split.prems split.hyps(2)]
      by (simp add: sub_query_codes)
  qed
  show "\<forall>q \<in> set qs. map code q = map code variables"
    using ret by (rule codes_kept)
  assume "\<forall>v \<in> set variables. distinct (values v)"
  then have "distinct (cells variables)"
    by (simp add: cells_def distinct_product_lists)
  then show "distinct (concat (map cells qs))"
    using m mset_eq_imp_distinct_iff by blast
  show "set (concat (map cells qs)) = set (cells variables)"
    using m by (rule mset_eq_setD)
next
  show "take n (values lv) @ drop n (values lv) = values lv" by simp
next
  assume "distinct (values lv)"
  then show "set (take n (values lv)) \<inter> set (drop n (values lv)) = {}"
    by (simp add: set_take_disj_set_drop_if_distinct)
next
  assume "max_by_values variables = Inr lv"
  then have "lv \<in> set variables" by (rule max_by_values_mem)
  with assms obtain i where i: "i < length variables" "variables ! i = lv"
    "\<forall>j < length variables. j \<noteq> i \<longrightarrow> variables ! j \<noteq> lv"
    using distinct_codes_index by blast
  have "\<forall>j < length variables.
          if j = i
          then sub_query lv (take n (values lv)) variables ! j = \<lparr>code = code lv, values = take n (values lv)\<rparr> \<and>
               sub_query lv (drop n (values lv)) variables ! j = \<lparr>code = code lv, values = drop n (values lv)\<rparr>
          else sub_query lv (take n (values lv)) variables ! j = variables ! j \<and>
               sub_query lv (drop n (values lv)) variables ! j = variables ! j"
    using i by (simp add: sub_query_nth)
  then show "\<exists>i < length variables. variables ! i = lv \<and>
               (\<forall>j < length variables.
                  if j = i
                  then sub_query lv (take n (values lv)) variables ! j = \<lparr>code = code lv, values = take n (values lv)\<rparr> \<and>
                       sub_query lv (drop n (values lv)) variables ! j = \<lparr>code = code lv, values = drop n (values lv)\<rparr>
                  else sub_query lv (take n (values lv)) variables ! j = variables ! j \<and>
                       sub_query lv (drop n (values lv)) variables ! j = variables ! j)"
    using i(1,2) by blast
qed

lemma partition_covers_cells_example:
  "distinct (map code example_table) \<and>
   recursive_split example_table = Some (Inr [example_half ''2023'', example_half ''2024'']) \<and>
   mset (cells (example_half ''2023'') @ cells (example_half ''2024'')) = mset (cells example_table) \<and>
   distinct (cells (example_half ''2023'') @ cells (example_half ''2024'')) \<and>
   set (cells (example_half ''2023'') @ cells (example_half ''2024'')) = set (cells example_table) \<and>
   map code (example_half ''2023'') = map code example_table \<and>
   map code (example_half ''2024'') = map code example_table \<and>
   max_by_values example_table = Inr \<lparr>code = ''Tid'', values = [''2023'', ''2024'']\<rparr> \<and>
   [''2023''] @ [''2024''] = [''2023'', ''2024''] \<and>
   set [''2023''] \<inter> set [''2024''] = ({} :: string set)"
proof -
  have d: "\<forall>v \<in> set example_table. distinct (values v)"
    by (simp add: example_table_def example_ten_def)
  show ?thesis
    using partition_covers_cells [OF example_codes,
        of "[example_half ''2023'', example_half ''2024'']"
           "\<lparr>code = ''Tid'', values = [''2023'', ''2024'']\<rparr>" 1]
      example_codes ex_split ex_max d
    by simp
qed

section \<open>Facts about reading a table\<close>

text \<open>
  The loop started on a frame that is either the frame without columns and rows or a frame
  with rows: when every request succeeds with a dataset that has observations, the loop
  returns the frame whose columns are merged in order of first appearance and whose rows
  are the rows so far followed by the observations of the datasets, in order.
\<close>

lemma loop_frame:
  assumes "map fetch queries = map Inr subs" "\<forall>s \<in> set subs. observations s \<noteq> []"
    "empty df0 \<longrightarrow> columns df0 = [] \<and> rows df0 = []"
  shows "read_table_loop fetch queries df0 =
           Inr \<lparr>columns = merged_columns (columns df0) subs,
                rows = rows df0 @ concat (map observations subs)\<rparr>"
  using assms
proof (induction queries arbitrary: subs df0)
  case Nil
  then show ?case by simp
next
  case (Cons q queries)
  from Cons.prems(1) obtain s rest where s: "subs = s # rest" "fetch q = Inr s"
    "map fetch queries = map Inr rest" by (cases subs) auto
  have obs: "observations s \<noteq> []" "\<forall>s \<in> set rest. observations s \<noteq> []"
    using Cons.prems(2) s(1) by simp_all
  let ?sub = "\<lparr>columns = dimensions s @ [''value''], rows = observations s\<rparr>"
  let ?next = "if empty df0 then ?sub else concat_frames df0 ?sub"
  have w: "write_dataframe s = Inr ?sub" using obs(1) by (simp add: write_dataframe_def)
  have inv: "empty ?next \<longrightarrow> columns ?next = [] \<and> rows ?next = []"
    using obs(1) by (auto simp: empty_def concat_frames_def)
  have c: "columns ?next =
      columns df0 @ filter (\<lambda>c. c \<notin> set (columns df0)) (dimensions s @ [''value''])"
    using Cons.prems(3) by (auto simp: concat_frames_def)
  have r: "rows ?next = rows df0 @ observations s"
    using Cons.prems(3) by (auto simp: concat_frames_def)
  have "read_table_loop fetch (q # queries) df0 = read_table_loop fetch queries ?next"
    using s(2) w by simp
  also have "\<dots> = Inr \<lparr>columns = merged_columns (columns ?next) rest,
                          rows = rows ?next @ concat (map observations rest)\<rparr>"
    using Cons.IH[OF s(3) obs(2) inv] .
  finally show ?case unfolding c r s(1) by simp
qed

lemma merged_columns_set:
  "set (merged_columns acc subs) = set acc \<union> (\<Union>d \<in> set subs. set (dimensions d) \<union> {''value''})"
  by (induction subs arbitrary: acc) auto

text \<open>
  The loop raises nothing of its own: an error of the loop is the error of a request, or the
  error of the writer on a dataset without observations.
\<close>

lemma loop_errors:
  "read_table_loop fetch queries df = Inl e \<Longrightarrow>
     (\<exists>q \<in> set queries. fetch q = Inl e) \<or>
     (e = IndexError \<and> (\<exists>q \<in> set queries. \<exists>ds. fetch q = Inr ds \<and> observations ds = []))"
proof (induction queries arbitrary: df)
  case Nil
  then show ?case by simp
next
  case (Cons q queries)
  show ?case
  proof (cases "fetch q")
    case (Inl e')
    then show ?thesis using Cons.prems by auto
  next
    case (Inr ds)
    show ?thesis
    proof (cases "observations ds = []")
      case True
      then show ?thesis using Cons.prems Inr by (auto simp: write_dataframe_def)
    next
      case False
      then obtain df' where "read_table_loop fetch queries df' = Inl e"
        using Cons.prems Inr by (auto simp: write_dataframe_def)
      from Cons.IH[OF this] show ?thesis by auto
    qed
  qed
qed

lemma fetch_2022: "example_fetch (year_query ''2022'') =
    Inr (year_dataset [year_row ''2022'' ''10'', year_row ''2022'' ''11''])"
  by (simp add: example_fetch_def)

lemma fetch_2023: "example_fetch (year_query ''2023'') = Inr (year_dataset [])"
  by (simp add: example_fetch_def year_query_def read_table_query_def)

lemma fetch_2024: "example_fetch (year_query ''2024'') = Inr (year_dataset [year_row ''2024'' ''12''])"
  by (simp add: example_fetch_def year_query_def read_table_query_def)

lemma fetch_2025: "example_fetch (year_query ''2025'') = Inr region_dataset"
  by (simp add: example_fetch_def year_query_def read_table_query_def)

lemma fetch_2026: "example_fetch (year_query ''2026'') = Inr (year_dataset [year_row ''2026'' ''13''])"
  by (simp add: example_fetch_def year_query_def read_table_query_def)

lemma read_table_variables_present:
  "\<forall>d \<in> set ds. code_field d \<noteq> None \<and> values_field d \<noteq> None \<Longrightarrow>
     read_table_variables ds =
       Inr (map (\<lambda>d. \<lparr>code = the (code_field d), values = the (values_field d)\<rparr>) ds)"
  by (induction ds) auto

lemma read_table_variables_missing:
  "d \<in> set ds \<Longrightarrow> code_field d = None \<or> values_field d = None \<Longrightarrow>
     read_table_variables ds = Inl (KeyError ''code'') \<or>
     read_table_variables ds = Inl (KeyError ''values'')"
proof (induction ds)
  case Nil
  then show ?case by simp
next
  case (Cons a ds)
  show ?case
  proof (cases "d = a")
    case True
    then show ?thesis using Cons.prems(2) by (auto split: option.splits)
  next
    case False
    then have "read_table_variables ds = Inl (KeyError ''code'') \<or>
               read_table_variables ds = Inl (KeyError ''values'')"
      using Cons by simp
    then show ?thesis by (auto split: option.splits)
  qed
qed


section \<open>The claims\<close>

text \<open>
  C6: a dimension list whose cardinality is at most the cap of 300000 is returned as the
  single-element list holding exactly that list; the first branch of the function returns
  before any recursive call.
\<close>

theorem terminal_case_unchanged:
  "count_combinations variables \<le> 300000 \<Longrightarrow> recursive_split variables = Some (Inr [variables])"
  by (subst recursive_split.simps) simp

theorem terminal_case_unchanged_witness:
  "count_combinations small_table \<le> 300000 \<and>
   recursive_split small_table = Some (Inr [small_table])"
proof -
  have h: "count_combinations small_table \<le> 300000"
    by (simp add: small_table_def count_combinations_def)
  show ?thesis using h terminal_case_unchanged [OF h] by simp
qed

text \<open>
  C10: when some dimension has an empty value list the cardinality is 0, which is at most
  the cap, and the partitioner returns the single-element list holding the input unchanged;
  so a query with a dimension without values reaches the caller.
\<close>

theorem empty_values_returned:
  "v \<in> set variables \<Longrightarrow> values v = [] \<Longrightarrow>
     count_combinations variables = 0 \<and> recursive_split variables = Some (Inr [variables])"
  by (simp add: count_combinations_empty_values recursive_split_leaf)

theorem empty_values_returned_witness:
  "\<lparr>code = ''Tid'', values = []\<rparr> \<in> set hollow_table \<and>
   values \<lparr>code = ''Tid'', values = []\<rparr> = [] \<and>
   count_combinations hollow_table = 0 \<and>
   recursive_split hollow_table = Some (Inr [hollow_table])"
proof -
  have h: "\<lparr>code = ''Tid'', values = []\<rparr> \<in> set hollow_table"
    by (simp add: hollow_table_def)
  show ?thesis using h empty_values_returned [OF h] by simp
qed

text \<open>
  C1: the claim is that the dimension selected for splitting is the one with the most
  values, the first such one on ties. The source selects with
  \<^verbatim>\<open>max(variables, key=lambda x: x["values"])\<close>, which compares the value lists themselves:
  on the example table of 400000 cells it selects the year, which has two values, because
  \<^verbatim>\<open>"2023"\<close> is greater than \<^verbatim>\<open>"00"\<close> and \<^verbatim>\<open>"1"\<close>, where the claim selects the
  region, which has ten.
\<close>

theorem selection_compares_value_lists:
  "300000 < count_combinations example_table \<and>
   max_by_values example_table = Inr \<lparr>code = ''Tid'', values = [''2023'', ''2024'']\<rparr> \<and>
   spec_largest_dimension example_table = Some \<lparr>code = ''Region'', values = example_ten\<rparr> \<and>
   length (values \<lparr>code = ''Tid'', values = [''2023'', ''2024'']\<rparr>) = 2 \<and>
   length (values \<lparr>code = ''Region'', values = example_ten\<rparr>) = 10"
  by (simp add: ex_count ex_max spec_largest_example ex_len)

text \<open>
  C2: the claim is that the partitioner terminates on every dimension list. On the example
  table extended by the single-valued measure dimension the source selects that dimension
  (\<^verbatim>\<open>"Personer"\<close> is the greatest first value), halves its one value into an empty list
  and the same list, and calls itself again on an input equal to the one it was given:
  the call never returns.
\<close>

theorem single_value_selection_never_returns:
  "recursive_split contents_table = None"
  using contents_degenerate by (rule degenerate_diverges)

text \<open>
  C3, as amended: every query in a list returned by the partitioner has cardinality at most
  the cap of 300000.
\<close>

theorem returned_queries_within_cap:
  "recursive_split variables = Some (Inr qs) \<Longrightarrow> q \<in> set qs \<Longrightarrow> count_combinations q \<le> 300000"
proof -
  assume "recursive_split variables = Some (Inr qs)"
  then have "\<forall>q \<in> set qs. count_combinations q \<le> 300000"
    by (induction rule: recursive_split_induct) auto
  moreover assume "q \<in> set qs"
  ultimately show ?thesis by blast
qed

theorem returned_queries_within_cap_witness:
  "recursive_split example_table = Some (Inr [example_half ''2023'', example_half ''2024'']) \<and>
   example_half ''2024'' \<in> set [example_half ''2023'', example_half ''2024''] \<and>
   count_combinations (example_half ''2024'') \<le> 300000"
proof -
  have h: "example_half ''2024'' \<in> set [example_half ''2023'', example_half ''2024'']" by simp
  show ?thesis using ex_split h returned_queries_within_cap [OF ex_split h] by simp
qed

text \<open>
  C3, the claim as stated fails: in the unsplittable case (the cardinality exceeds the cap
  and the selected dimension has one value) the partitioner raises no error of its own;
  the recursion does not end, here on a table of 400000 cells for a single year.
\<close>

theorem degenerate_case_has_no_error_of_its_own:
  "degenerate single_year_table \<and> recursive_split single_year_table = None"
proof -
  have d: "degenerate single_year_table"
    by (simp add: degenerate_def single_year_count single_year_max)
  then show ?thesis using degenerate_diverges by blast
qed

text \<open>
  C5: the claim is that for every dimension list the queries the partitioner returns have
  cardinalities that sum to the product of the value counts. On the example table extended
  by the single-valued measure dimension, a list with pairwise distinct codes, no empty
  value list and 400000 cells, the partitioner returns no query at all: the recursion does
  not end.
\<close>

theorem no_returned_cardinalities:
  "distinct (map code contents_table) \<and>
   [] \<notin> set (map values contents_table) \<and>
   count_combinations contents_table = 400000 \<and>
   recursive_split contents_table = None"
proof -
  have "distinct (map code contents_table)"
    by (simp add: contents_table_def example_table_def)
  moreover have "[] \<notin> set (map values contents_table)"
    by (simp add: contents_table_def example_table_def example_ten_def)
  moreover have "recursive_split contents_table = None"
    using contents_degenerate by (rule degenerate_diverges)
  ultimately show ?thesis using contents_count by blast
qed

text \<open>
  C4: the claim is that for every dimension list the queries the partitioner returns cover
  every cell of the input exactly once. On the table of 400000 cells for a single year, a
  list with pairwise distinct codes and no empty value list, the partitioner returns no
  query at all, so no cell of the input is covered, not even the cell made of the first
  value of every dimension.
\<close>

theorem no_returned_cells:
  "distinct (map code single_year_table) \<and>
   [] \<notin> set (map values single_year_table) \<and>
   [''00'', ''00'', ''00'', ''00'', ''00'', ''1'', ''0'', ''2024''] \<in> set (cells single_year_table) \<and>
   recursive_split single_year_table = None"
proof -
  have "distinct (map code single_year_table)"
    by (simp add: single_year_table_def)
  moreover have "[] \<notin> set (map values single_year_table)"
    by (simp add: single_year_table_def example_ten_def)
  moreover have "[''00'', ''00'', ''00'', ''00'', ''00'', ''1'', ''0'', ''2024'']
      \<in> set (cells single_year_table)"
    by (simp add: in_cells_iff single_year_table_def example_ten_def)
  moreover have "degenerate single_year_table"
    by (simp add: degenerate_def single_year_count single_year_max)
  then have "recursive_split single_year_table = None" by (rule degenerate_diverges)
  ultimately show ?thesis by blast
qed

text \<open>
  C7, as amended: when every request succeeds with a sub-dataset that has observations, the
  rows of the dataset that \<^verbatim>\<open>read_table\<close> assembles are the rows of the sub-datasets in
  partition order, one after the other, nothing dropped, reordered or deduplicated. For
  three sub-datasets this is the rows of the first, then of the second, then of the third.
\<close>

theorem rows_in_partition_order:
  "map fetch queries = map Inr subs \<Longrightarrow> \<forall>s \<in> set subs. observations s \<noteq> [] \<Longrightarrow>
     \<exists>df. read_table_loop fetch queries DataFrame = Inr df \<and>
          rows df = concat (map observations subs)"
  using loop_frame[of fetch queries subs DataFrame] by (simp add: DataFrame_def empty_def)

theorem rows_in_partition_order_witness:
  "map example_fetch [year_query ''2022'', year_query ''2024'', year_query ''2026''] =
   map Inr [year_dataset [year_row ''2022'' ''10'', year_row ''2022'' ''11''],
            year_dataset [year_row ''2024'' ''12''],
            year_dataset [year_row ''2026'' ''13'']] \<and>
   (\<exists>df. read_table_loop example_fetch
            [year_query ''2022'', year_query ''2024'', year_query ''2026''] DataFrame = Inr df \<and>
         rows df = [year_row ''2022'' ''10'', year_row ''2022'' ''11'', year_row ''2024'' ''12'',
                    year_row ''2026'' ''13''])"
proof -
  have f: "map example_fetch [year_query ''2022'', year_query ''2024'', year_query ''2026''] =
     map Inr [year_dataset [year_row ''2022'' ''10'', year_row ''2022'' ''11''],
              year_dataset [year_row ''2024'' ''12''],
              year_dataset [year_row ''2026'' ''13'']]"
    by (simp add: fetch_2022 fetch_2024 fetch_2026)
  have n: "\<forall>s \<in> set [year_dataset [year_row ''2022'' ''10'', year_row ''2022'' ''11''],
              year_dataset [year_row ''2024'' ''12''],
              year_dataset [year_row ''2026'' ''13'']]. observations s \<noteq> []"
    by (simp add: year_dataset_def)
  show ?thesis using rows_in_partition_order [OF f n] f by (simp add: year_dataset_def)
qed

text \<open>
  C7, the claim as stated fails: a sub-dataset without observations does not add zero rows.
  With the second of three answers empty, writing it to a data frame raises and the loop
  ends with that error; no dataset is assembled.
\<close>

theorem empty_sub_dataset_ends_read:
  "example_fetch (year_query ''2022'') =
     Inr (year_dataset [year_row ''2022'' ''10'', year_row ''2022'' ''11'']) \<and>
   example_fetch (year_query ''2023'') = Inr (year_dataset []) \<and>
   example_fetch (year_query ''2024'') = Inr (year_dataset [year_row ''2024'' ''12'']) \<and>
   read_table_loop example_fetch
     [year_query ''2022'', year_query ''2023'', year_query ''2024''] DataFrame = Inl IndexError"
proof -
  have "read_table_loop example_fetch
     [year_query ''2022'', year_query ''2023'', year_query ''2024''] DataFrame = Inl IndexError"
    by (simp add: fetch_2022 fetch_2023 write_dataframe_def year_dataset_def)
  then show ?thesis using fetch_2022 fetch_2023 fetch_2024 by blast
qed

text \<open>
  C8, as amended: the assembly checks no schema. When every request succeeds with a
  sub-dataset that has observations, whatever the columns of the sub-datasets are, the
  assembled dataset has every column of every sub-dataset, each at the place of its first
  appearance, and the rows of all sub-datasets in order.
\<close>

theorem mismatched_columns_are_merged:
  assumes "map fetch queries = map Inr subs" "\<forall>s \<in> set subs. observations s \<noteq> []"
  shows "read_table_loop fetch queries DataFrame =
           Inr \<lparr>columns = merged_columns [] subs, rows = concat (map observations subs)\<rparr> \<and>
         set (merged_columns [] subs) = (\<Union>d \<in> set subs. set (dimensions d) \<union> {''value''})"
  using loop_frame[OF assms, of DataFrame] merged_columns_set[of "[]" subs]
  by (simp add: DataFrame_def empty_def)

theorem mismatched_columns_are_merged_witness:
  "map example_fetch [year_query ''2022'', year_query ''2025'', year_query ''2024''] =
   map Inr [year_dataset [year_row ''2022'' ''10'', year_row ''2022'' ''11''],
            region_dataset,
            year_dataset [year_row ''2024'' ''12'']] \<and>
   read_table_loop example_fetch
     [year_query ''2022'', year_query ''2025'', year_query ''2024''] DataFrame =
     Inr \<lparr>columns = [''Tid'', ''value'', ''Region''],
          rows = [year_row ''2022'' ''10'', year_row ''2022'' ''11'', region_row,
                  year_row ''2024'' ''12'']\<rparr>"
proof -
  have f: "map example_fetch [year_query ''2022'', year_query ''2025'', year_query ''2024''] =
     map Inr [year_dataset [year_row ''2022'' ''10'', year_row ''2022'' ''11''],
              region_dataset,
              year_dataset [year_row ''2024'' ''12'']]"
    by (simp add: fetch_2022 fetch_2024 fetch_2025)
  have n: "\<forall>s \<in> set [year_dataset [year_row ''2022'' ''10'', year_row ''2022'' ''11''],
              region_dataset,
              year_dataset [year_row ''2024'' ''12'']]. observations s \<noteq> []"
    by (simp add: year_dataset_def region_dataset_def)
  show ?thesis
    using mismatched_columns_are_merged [OF f n] f
    by (simp add: year_dataset_def region_dataset_def)
qed

text \<open>
  C8, the claim as stated fails: a second sub-dataset with the column \<^verbatim>\<open>Region\<close> after a
  first one with the column \<^verbatim>\<open>Tid\<close> raises nothing, and a dataset with the three columns
  and all the rows is returned.
\<close>

theorem mismatched_columns_raise_nothing:
  "write_dataframe (year_dataset [year_row ''2022'' ''10'', year_row ''2022'' ''11'']) =
     Inr \<lparr>columns = [''Tid'', ''value''],
          rows = [year_row ''2022'' ''10'', year_row ''2022'' ''11'']\<rparr> \<and>
   write_dataframe region_dataset =
     Inr \<lparr>columns = [''Region'', ''value''], rows = [region_row]\<rparr> \<and>
   read_table_loop example_fetch [year_query ''2022'', year_query ''2025''] DataFrame =
     Inr \<lparr>columns = [''Tid'', ''value'', ''Region''],
          rows = [year_row ''2022'' ''10'', year_row ''2022'' ''11'', region_row]\<rparr>"
  by (simp add: fetch_2022 fetch_2025 DataFrame_def empty_def write_dataframe_def
      concat_frames_def year_dataset_def region_dataset_def)

text \<open>
  C9, as amended: building the dimension list fails with a \<^verbatim>\<open>KeyError\<close> when a variable
  descriptor lacks its code or its value list, and \<^verbatim>\<open>read_table\<close> ends with that error
  before any request; when every descriptor has both keys the dimension list is built
  whatever the value lists hold, an empty one included.
\<close>

theorem missing_key_aborts_read:
  "(d \<in> set ds \<and> (code_field d = None \<or> values_field d = None) \<longrightarrow>
      (\<exists>k. (k = ''code'' \<or> k = ''values'') \<and>
           read_table_variables ds = Inl (KeyError k) \<and>
           read_table (Inr \<lparr>variables_field = Some ds\<rparr>) fetch = Some (Inl (KeyError k)))) \<and>
   ((\<forall>d \<in> set ds. code_field d \<noteq> None \<and> values_field d \<noteq> None) \<longrightarrow>
      read_table_variables ds =
        Inr (map (\<lambda>d. \<lparr>code = the (code_field d), values = the (values_field d)\<rparr>) ds))"
proof (intro conjI impI)
  assume "d \<in> set ds \<and> (code_field d = None \<or> values_field d = None)"
  then have "read_table_variables ds = Inl (KeyError ''code'') \<or>
             read_table_variables ds = Inl (KeyError ''values'')"
    using read_table_variables_missing by blast
  then show "\<exists>k. (k = ''code'' \<or> k = ''values'') \<and>
           read_table_variables ds = Inl (KeyError k) \<and>
           read_table (Inr \<lparr>variables_field = Some ds\<rparr>) fetch = Some (Inl (KeyError k))"
    by (auto simp: read_table_def)
next
  assume "\<forall>d \<in> set ds. code_field d \<noteq> None \<and> values_field d \<noteq> None"
  then show "read_table_variables ds =
        Inr (map (\<lambda>d. \<lparr>code = the (code_field d), values = the (values_field d)\<rparr>) ds)"
    by (rule read_table_variables_present)
qed

theorem missing_key_aborts_read_witness:
  "\<lparr>code_field = None, values_field = Some [''2024'']\<rparr> \<in> set uncoded_descriptors \<and>
   read_table_variables uncoded_descriptors = Inl (KeyError ''code'') \<and>
   read_table (Inr \<lparr>variables_field = Some uncoded_descriptors\<rparr>) example_fetch =
     Some (Inl (KeyError ''code'')) \<and>
   read_table_variables hollow_descriptors =
     Inr (map (\<lambda>d. \<lparr>code = the (code_field d), values = the (values_field d)\<rparr>)
            hollow_descriptors)"
proof -
  have h: "\<lparr>code_field = None, values_field = Some [''2024'']\<rparr> \<in> set uncoded_descriptors"
    by (simp add: uncoded_descriptors_def)
  have c: "read_table_variables uncoded_descriptors = Inl (KeyError ''code'')"
    by (simp add: uncoded_descriptors_def)
  have p: "\<forall>d \<in> set hollow_descriptors. code_field d \<noteq> None \<and> values_field d \<noteq> None"
    by (simp add: hollow_descriptors_def)
  show ?thesis
    using missing_key_aborts_read [of "\<lparr>code_field = None, values_field = Some [''2024'']\<rparr>"
        uncoded_descriptors example_fetch]
      missing_key_aborts_read [of "\<lparr>code_field = Some ''Tid'', values_field = Some []\<rparr>"
        hollow_descriptors example_fetch] h c p
    by simp
qed

text \<open>
  C9, the claim as stated fails: a descriptor with an empty value list raises no error and
  becomes a dimension without values.
\<close>

theorem empty_value_list_is_accepted:
  "read_table_variables hollow_descriptors = Inr hollow_table \<and>
   values (hollow_table ! 1) = []"
  by (simp add: hollow_descriptors_def hollow_table_def)

end
